theory Spec2Isabelle
  imports Main
begin

section \<open>The multi-year view of the datepicker\<close>

text \<open>
  A shallow embedding of \<^verbatim>\<open>src/lib/datepicker/multi-year-view.ts\<close> (class
  \<^verbatim>\<open>MatMultiYearView<D>\<close>). Names follow the source; a leading underscore of the source
  is written as the prefix \<open>u_\<close> (and the local \<^verbatim>\<open>end\<close> as \<open>end_date\<close>). Years are
  JavaScript numbers that hold integers and are modelled as \<open>int\<close>; dates of type
  \<^verbatim>\<open>D\<close> are objects (always truthy) of a type variable \<open>'d\<close>.
\<close>

subsection \<open>Constants and JavaScript arithmetic\<close>

definition yearsPerPage :: int where
  "yearsPerPage = 24"

definition yearsPerRow :: int where
  "yearsPerRow = 4"

text \<open>
  JavaScript's \<^verbatim>\<open>%\<close> truncates: the result has the sign of the dividend.
  \<^verbatim>\<open>Math.floor(a / b)\<close> on integers with positive \<open>b\<close> is the floor of the exact
  quotient, which is \<open>div\<close> on \<open>int\<close>.
\<close>

definition js_rem :: "int \<Rightarrow> int \<Rightarrow> int" where
  "js_rem a b = sgn a * (\<bar>a\<bar> mod \<bar>b\<bar>)"

text \<open>The key codes of \<^verbatim>\<open>@angular/cdk/keycodes\<close> (the DOM's \<^verbatim>\<open>keyCode\<close> values).\<close>

definition ENTER :: nat where "ENTER = 13"
definition SPACE :: nat where "SPACE = 32"
definition PAGE_UP :: nat where "PAGE_UP = 33"
definition PAGE_DOWN :: nat where "PAGE_DOWN = 34"
definition END :: nat where "END = 35"
definition HOME :: nat where "HOME = 36"
definition LEFT_ARROW :: nat where "LEFT_ARROW = 37"
definition UP_ARROW :: nat where "UP_ARROW = 38"
definition RIGHT_ARROW :: nat where "RIGHT_ARROW = 39"
definition DOWN_ARROW :: nat where "DOWN_ARROW = 40"

subsection \<open>The date adapter\<close>

text \<open>
  A value bound to an input of the component (TypeScript's \<^verbatim>\<open>any\<close>): null or undefined,
  a date object, or anything else (for instance a string to be parsed).
\<close>

datatype 'd any_value = Null | DateObj 'd | Other string

text \<open>
  \<^verbatim>\<open>DateAdapter<D>\<close> is an abstract class outside this file; the component only calls it.
  It is a parameter of every operation: a record of the methods the component uses.
  \<open>deserialize\<close> returns \<^verbatim>\<open>D | null\<close>; \<open>isDateInstance\<close> and \<open>isValid\<close> are asked
  about that result, so they take \<open>'d option\<close>; \<open>today\<close> is the date the adapter reports
  as today. The methods are total functions here: what a particular adapter does outside
  its range (a \<open>createDate\<close> that throws for a year it cannot represent) is not part of
  this model, so no theorem below says that an adapter call does not throw.
\<close>

record 'd DateAdapter =
  getYear :: "'d \<Rightarrow> int"
  getMonth :: "'d \<Rightarrow> int"
  getDate :: "'d \<Rightarrow> int"
  getYearName :: "'d \<Rightarrow> string"
  getNumDaysInMonth :: "'d \<Rightarrow> int"
  createDate :: "int \<Rightarrow> int \<Rightarrow> int \<Rightarrow> 'd"
  today :: "'d"
  addCalendarYears :: "'d \<Rightarrow> int \<Rightarrow> 'd"
  addCalendarDays :: "'d \<Rightarrow> int \<Rightarrow> 'd"
  deserialize :: "'d any_value \<Rightarrow> 'd option"
  isDateInstance :: "'d option \<Rightarrow> bool"
  isValid :: "'d option \<Rightarrow> bool"
  compareDate :: "'d \<Rightarrow> 'd \<Rightarrow> int"
  clampDate :: "'d \<Rightarrow> 'd option \<Rightarrow> 'd option \<Rightarrow> 'd"

subsection \<open>The component state\<close>

text \<open>\<^verbatim>\<open>new MatCalendarCell(value, displayValue, ariaLabel, enabled, range)\<close>.\<close>

record 'd MatCalendarCell =
  cell_value :: int
  cell_displayValue :: string
  cell_ariaLabel :: string
  cell_enabled :: bool
  cell_range :: "'d \<times> 'd"

text \<open>The three \<^verbatim>\<open>EventEmitter\<close> outputs; an emission is appended to a log.\<close>

datatype 'd emission = SelectedChange 'd | YearSelected 'd | ActiveDateChange 'd

text \<open>
  The fields of the component. \<open>u_selected\<close> is the first selected date of the injected
  selection model, \<open>u_dir\<close> the value of the optional \<^verbatim>\<open>Directionality\<close>. The effects
  on collaborators are counted: \<open>markForCheckCalls\<close> for
  \<^verbatim>\<open>_changeDetectorRef.markForCheck()\<close> and \<open>focusActiveCellCalls\<close> for
  \<^verbatim>\<open>_matCalendarBody._focusActiveCell()\<close>.
\<close>

record 'd MatMultiYearView =
  u_activeDate :: "'d"
  u_minDate :: "'d option"
  u_maxDate :: "'d option"
  dateFilter :: "('d \<Rightarrow> bool) option"
  u_years :: "'d MatCalendarCell list list"
  u_todayYear :: int
  u_selectedYear :: "int option"
  u_selected :: "'d option"
  u_dir :: "string option"
  emitted :: "'d emission list"
  markForCheckCalls :: nat
  focusActiveCellCalls :: nat

record KeyboardEvent =
  keyCode :: nat
  altKey :: bool
  defaultPrevented :: bool

subsection \<open>Validation and the bound setters\<close>

definition u_getValidDateOrNull :: "'d DateAdapter \<Rightarrow> 'd option \<Rightarrow> 'd option" where
  "u_getValidDateOrNull ad obj =
     (if isDateInstance ad obj \<and> isValid ad obj then obj else None)"

definition set_minDate ::
  "'d DateAdapter \<Rightarrow> 'd MatMultiYearView \<Rightarrow> 'd any_value \<Rightarrow> 'd MatMultiYearView" where
  "set_minDate ad s v = s\<lparr>u_minDate := u_getValidDateOrNull ad (deserialize ad v)\<rparr>"

definition set_maxDate ::
  "'d DateAdapter \<Rightarrow> 'd MatMultiYearView \<Rightarrow> 'd any_value \<Rightarrow> 'd MatMultiYearView" where
  "set_maxDate ad s v = s\<lparr>u_maxDate := u_getValidDateOrNull ad (deserialize ad v)\<rparr>"

definition extractYear :: "'d DateAdapter \<Rightarrow> 'd MatMultiYearView \<Rightarrow> 'd MatMultiYearView" where
  "extractYear ad s =
     s\<lparr>u_selectedYear := (case u_selected s of None \<Rightarrow> None | Some date \<Rightarrow> Some (getYear ad date))\<rparr>"

subsection \<open>Enabling a year\<close>

text \<open>
  The loop of \<^verbatim>\<open>_shouldEnableYear\<close>: from \<open>date\<close>, while the adapter says the date is in
  \<open>year\<close>, return true at the first date the filter accepts, else step one day. Nothing
  in the component bounds the loop, so not returning is the value \<open>None\<close>. The tests for
  an undefined or null year have no counterpart here: a year is an \<open>int\<close>.
\<close>

partial_function (option) scanYear ::
  "'d DateAdapter \<Rightarrow> ('d \<Rightarrow> bool) \<Rightarrow> int \<Rightarrow> 'd \<Rightarrow> bool option" where
  "scanYear ad f year date =
     (if getYear ad date = year
      then (if f date then Some True else scanYear ad f year (addCalendarDays ad date 1))
      else Some False)"

definition u_shouldEnableYear ::
  "'d DateAdapter \<Rightarrow> 'd MatMultiYearView \<Rightarrow> int \<Rightarrow> bool option" where
  "u_shouldEnableYear ad s year =
     (if (case u_maxDate s of None \<Rightarrow> False | Some mx \<Rightarrow> year > getYear ad mx) \<or>
         (case u_minDate s of None \<Rightarrow> False | Some mn \<Rightarrow> year < getYear ad mn)
      then Some False
      else (case dateFilter s of
              None \<Rightarrow> Some True
            | Some f \<Rightarrow> scanYear ad f year (createDate ad year 0 1)))"

definition u_createCellForYear ::
  "'d DateAdapter \<Rightarrow> 'd MatMultiYearView \<Rightarrow> int \<Rightarrow> 'd MatCalendarCell option" where
  "u_createCellForYear ad s year =
     (let date = createDate ad year 0 1;
          end_date = createDate ad year 11 31;
          yearName = getYearName ad date
      in case u_shouldEnableYear ad s year of
           None \<Rightarrow> None
         | Some en \<Rightarrow>
             Some \<lparr>cell_value = year, cell_displayValue = yearName, cell_ariaLabel = yearName,
                   cell_enabled = en, cell_range = (date, end_date)\<rparr>)"

subsection \<open>Generating the page\<close>

text \<open>
  The loop of \<^verbatim>\<open>_init\<close>, with \<open>base = activeYear - activeOffset\<close>: the counter \<open>i\<close>,
  the row being filled and the rows pushed so far.
\<close>

function init_loop ::
  "'d DateAdapter \<Rightarrow> 'd MatMultiYearView \<Rightarrow> int \<Rightarrow> nat \<Rightarrow> int list \<Rightarrow>
   'd MatCalendarCell list list \<Rightarrow> 'd MatCalendarCell list list option" where
  "init_loop ad s base i row years =
     (if int i < yearsPerPage
      then (let row' = row @ [base + int i]
            in if int (length row') = yearsPerRow
               then (case those (map (u_createCellForYear ad s) row') of
                       None \<Rightarrow> None
                     | Some cells \<Rightarrow> init_loop ad s base (i + 1) [] (years @ [cells]))
               else init_loop ad s base (i + 1) row' years)
      else Some years)"
  by pat_completeness auto
termination
  by (relation "measure (\<lambda>(ad, s, base, i, row, years). nat yearsPerPage - i)")
     (auto simp: yearsPerPage_def)

definition u_init :: "'d DateAdapter \<Rightarrow> 'd MatMultiYearView \<Rightarrow> 'd MatMultiYearView option" where
  "u_init ad s =
     (let s1 = extractYear ad s;
          s2 = s1\<lparr>u_todayYear := getYear ad (today ad)\<rparr>;
          activeYear = getYear ad (u_activeDate s2);
          activeOffset = js_rem activeYear yearsPerPage
      in case init_loop ad s2 (activeYear - activeOffset) 0 [] [] of
           None \<Rightarrow> None
         | Some years \<Rightarrow>
             Some (s2\<lparr>u_years := years, markForCheckCalls := markForCheckCalls s2 + 1\<rparr>))"

subsection \<open>The active date\<close>

definition set_activeDate ::
  "'d DateAdapter \<Rightarrow> 'd MatMultiYearView \<Rightarrow> 'd any_value \<Rightarrow> 'd MatMultiYearView option" where
  "set_activeDate ad s v =
     (let oldActiveDate = u_activeDate s;
          validDate = (case u_getValidDateOrNull ad (deserialize ad v) of
                         None \<Rightarrow> today ad
                       | Some d \<Rightarrow> d);
          s1 = s\<lparr>u_activeDate := clampDate ad validDate (u_minDate s) (u_maxDate s)\<rparr>
      in if getYear ad oldActiveDate div yearsPerPage \<noteq>
            getYear ad (u_activeDate s1) div yearsPerPage
         then u_init ad s1
         else Some s1)"

subsection \<open>Committing a year\<close>

definition u_yearSelected ::
  "'d DateAdapter \<Rightarrow> 'd MatMultiYearView \<Rightarrow> int \<Rightarrow> 'd MatMultiYearView" where
  "u_yearSelected ad s year =
     (let s1 = s\<lparr>emitted := emitted s @ [YearSelected (createDate ad year 0 1)]\<rparr>;
          month = getMonth ad (u_activeDate s1);
          daysInMonth = getNumDaysInMonth ad (createDate ad year month 1)
      in s1\<lparr>emitted := emitted s1 @
             [SelectedChange
                (createDate ad year month (min (getDate ad (u_activeDate s1)) daysInMonth))]\<rparr>)"

subsection \<open>Keyboard handling\<close>

definition u_isRtl :: "'d MatMultiYearView \<Rightarrow> bool" where
  "u_isRtl s = (case u_dir s of None \<Rightarrow> False | Some v \<Rightarrow> v = ''rtl'')"

definition u_focusActiveCell :: "'d MatMultiYearView \<Rightarrow> 'd MatMultiYearView" where
  "u_focusActiveCell s = s\<lparr>focusActiveCellCalls := focusActiveCellCalls s + 1\<rparr>"

definition u_getActiveCell :: "'d DateAdapter \<Rightarrow> 'd MatMultiYearView \<Rightarrow> int" where
  "u_getActiveCell ad s = js_rem (getYear ad (u_activeDate s)) yearsPerPage"

text \<open>
  What \<^verbatim>\<open>_handleCalendarBodyKeydown\<close> does after the \<^verbatim>\<open>switch\<close>, for a case that
  ended in \<^verbatim>\<open>break\<close>.
\<close>

definition after_switch ::
  "'d DateAdapter \<Rightarrow> 'd \<Rightarrow> KeyboardEvent \<Rightarrow> 'd MatMultiYearView option \<Rightarrow>
   ('d MatMultiYearView \<times> KeyboardEvent) option" where
  "after_switch ad oldActiveDate event r =
     (case r of
        None \<Rightarrow> None
      | Some s1 \<Rightarrow>
          (let s2 = (if compareDate ad oldActiveDate (u_activeDate s1) \<noteq> 0
                     then s1\<lparr>emitted := emitted s1 @ [ActiveDateChange (u_activeDate s1)]\<rparr>
                     else s1)
           in Some (u_focusActiveCell s2, event\<lparr>defaultPrevented := True\<rparr>)))"

definition u_handleCalendarBodyKeydown ::
  "'d DateAdapter \<Rightarrow> 'd MatMultiYearView \<Rightarrow> KeyboardEvent \<Rightarrow>
   ('d MatMultiYearView \<times> KeyboardEvent) option" where
  "u_handleCalendarBodyKeydown ad s event =
     (let oldActiveDate = u_activeDate s;
          isRtl = u_isRtl s;
          move = (\<lambda>n. after_switch ad oldActiveDate event
                    (set_activeDate ad s (DateObj (addCalendarYears ad (u_activeDate s) n))))
      in if keyCode event = LEFT_ARROW then move (if isRtl then 1 else - 1)
         else if keyCode event = RIGHT_ARROW then move (if isRtl then - 1 else 1)
         else if keyCode event = UP_ARROW then move (- yearsPerRow)
         else if keyCode event = DOWN_ARROW then move yearsPerRow
         else if keyCode event = HOME
           then move (js_rem (- getYear ad (u_activeDate s)) yearsPerPage)
         else if keyCode event = END
           then move (yearsPerPage - js_rem (getYear ad (u_activeDate s)) yearsPerPage - 1)
         else if keyCode event = PAGE_UP
           then move (if altKey event then - yearsPerPage * 10 else - yearsPerPage)
         else if keyCode event = PAGE_DOWN
           then move (if altKey event then yearsPerPage * 10 else yearsPerPage)
         else if keyCode event = ENTER \<or> keyCode event = SPACE
           then after_switch ad oldActiveDate event
                  (Some (u_yearSelected ad s (getYear ad (u_activeDate s))))
         else Some (s, event))"

subsection \<open>Construction and initialisation\<close>

text \<open>
  The component as its constructor leaves it, for a given selection and text direction:
  the active date is today and nothing else is assigned (the unassigned \<^verbatim>\<open>_years\<close>
  and \<^verbatim>\<open>_todayYear\<close> are written as the empty grid and 0 until \<open>u_init\<close> sets
  them).
\<close>

definition constructor ::
  "'d DateAdapter \<Rightarrow> 'd option \<Rightarrow> string option \<Rightarrow> 'd MatMultiYearView" where
  "constructor ad sel dir =
     \<lparr>u_activeDate = today ad, u_minDate = None, u_maxDate = None, dateFilter = None,
      u_years = [], u_todayYear = 0, u_selectedYear = None, u_selected = sel, u_dir = dir,
      emitted = [], markForCheckCalls = 0, focusActiveCellCalls = 0\<rparr>"

definition ngAfterContentInit ::
  "'d DateAdapter \<Rightarrow> 'd MatMultiYearView \<Rightarrow> 'd MatMultiYearView option" where
  "ngAfterContentInit ad s = u_init ad s"

subsection \<open>A calendar to run the component on\<close>

text \<open>
  Modelled from the spec: the Calendar Adapter is an external collaborator (the
  \<^verbatim>\<open>DateAdapter\<close> of \<^verbatim>\<open>@angular/material/core\<close>), absent from the source
  file. \<open>calendar t\<close> is one instance with the capabilities section 6 of the spec lists:
  dates are (year, zero-based month, day) in the proleptic Gregorian calendar, \<open>t\<close> is today,
  adding years keeps month and day and clamps the day to the month's length, comparison is
  by year, then month, then day, and clamping returns the lower bound for a date before it,
  else the upper bound for a date after it, else the date. It serves the concrete
  evaluations below; the general theorems hold for every adapter.
\<close>

datatype cal_date = CalDate (cal_year: int) (cal_month: int) (cal_day: int)

definition is_leap :: "int \<Rightarrow> bool" where
  "is_leap y = (y mod 4 = 0 \<and> (y mod 100 \<noteq> 0 \<or> y mod 400 = 0))"

definition days_in_month :: "int \<Rightarrow> int \<Rightarrow> int" where
  "days_in_month y m =
     (if m = 1 then (if is_leap y then 29 else 28)
      else if m = 3 \<or> m = 5 \<or> m = 8 \<or> m = 10 then 30
      else 31)"

definition cal_valid :: "cal_date \<Rightarrow> bool" where
  "cal_valid d =
     (0 \<le> cal_month d \<and> cal_month d \<le> 11 \<and> 1 \<le> cal_day d \<and>
      cal_day d \<le> days_in_month (cal_year d) (cal_month d))"

definition next_day :: "cal_date \<Rightarrow> cal_date" where
  "next_day d =
     (if cal_day d < days_in_month (cal_year d) (cal_month d)
      then CalDate (cal_year d) (cal_month d) (cal_day d + 1)
      else if cal_month d < 11 then CalDate (cal_year d) (cal_month d + 1) 1
      else CalDate (cal_year d + 1) 0 1)"

definition prev_day :: "cal_date \<Rightarrow> cal_date" where
  "prev_day d =
     (if 1 < cal_day d then CalDate (cal_year d) (cal_month d) (cal_day d - 1)
      else if 0 < cal_month d
        then CalDate (cal_year d) (cal_month d - 1) (days_in_month (cal_year d) (cal_month d - 1))
      else CalDate (cal_year d - 1) 11 31)"

definition cal_addCalendarDays :: "cal_date \<Rightarrow> int \<Rightarrow> cal_date" where
  "cal_addCalendarDays d n =
     (if 0 \<le> n then (next_day ^^ nat n) d else (prev_day ^^ nat (- n)) d)"

definition cal_addCalendarYears :: "cal_date \<Rightarrow> int \<Rightarrow> cal_date" where
  "cal_addCalendarYears d n =
     CalDate (cal_year d + n) (cal_month d)
       (min (cal_day d) (days_in_month (cal_year d + n) (cal_month d)))"

definition cal_compareDate :: "cal_date \<Rightarrow> cal_date \<Rightarrow> int" where
  "cal_compareDate a b =
     (if cal_year a \<noteq> cal_year b then cal_year a - cal_year b
      else if cal_month a \<noteq> cal_month b then cal_month a - cal_month b
      else cal_day a - cal_day b)"

definition cal_clampDate :: "cal_date \<Rightarrow> cal_date option \<Rightarrow> cal_date option \<Rightarrow> cal_date" where
  "cal_clampDate d lo hi =
     (let upper = (case hi of None \<Rightarrow> d | Some h \<Rightarrow> if cal_compareDate d h > 0 then h else d)
      in case lo of None \<Rightarrow> upper | Some l \<Rightarrow> if cal_compareDate d l < 0 then l else upper)"

definition cal_deserialize :: "cal_date any_value \<Rightarrow> cal_date option" where
  "cal_deserialize v =
     (case v of Null \<Rightarrow> None | DateObj d \<Rightarrow> Some d | Other _ \<Rightarrow> Some (CalDate 0 0 0))"

fun digits :: "nat \<Rightarrow> string" where
  "digits n =
     (if n < 10 then [char_of (48 + n)] else digits (n div 10) @ [char_of (48 + n mod 10)])"

definition cal_getYearName :: "cal_date \<Rightarrow> string" where
  "cal_getYearName d =
     (if cal_year d < 0 then CHR ''-'' # digits (nat (- cal_year d)) else digits (nat (cal_year d)))"

definition calendar :: "cal_date \<Rightarrow> cal_date DateAdapter" where
  "calendar t =
     \<lparr>getYear = cal_year, getMonth = cal_month, getDate = cal_day,
      getYearName = cal_getYearName,
      getNumDaysInMonth = (\<lambda>d. days_in_month (cal_year d) (cal_month d)),
      createDate = CalDate, today = t,
      addCalendarYears = cal_addCalendarYears, addCalendarDays = cal_addCalendarDays,
      deserialize = cal_deserialize,
      isDateInstance = (\<lambda>obj. obj \<noteq> None),
      isValid = (\<lambda>obj. case obj of None \<Rightarrow> False | Some d \<Rightarrow> cal_valid d),
      compareDate = cal_compareDate, clampDate = cal_clampDate\<rparr>"

text \<open>
  Concrete components for evaluation, each reached through the component's own operations.
  Today is 15 June 2023. \<open>assigned\<close> is the component after an assignment to
  \<open>activeDate\<close> (unchanged should the assignment not return). \<open>view_2023\<close> is the
  component after construction, \<open>view_leap\<close> has the active date 29 February 2024,
  \<open>view_bounded\<close> has the bounds 2020 to 2025 of the specification's scenario,
  \<open>view_filtered\<close> adds a filter that accepts 10 March 2024 only, \<open>view_inverted\<close> has
  a minimum after its maximum, \<open>view_capped\<close> has the active date 15 June 2024 and the
  maximum 1 September 2024, \<open>view_wide\<close> has the bounds 2000 to 2050, and \<open>view_bc\<close>
  has an active date in year -1.
\<close>

definition assigned ::
  "'d DateAdapter \<Rightarrow> 'd MatMultiYearView \<Rightarrow> 'd any_value \<Rightarrow> 'd MatMultiYearView" where
  "assigned ad s v = (case set_activeDate ad s v of None \<Rightarrow> s | Some s' \<Rightarrow> s')"

definition cal :: "cal_date DateAdapter" where
  "cal = calendar (CalDate 2023 5 15)"

definition view_2023 :: "cal_date MatMultiYearView" where
  "view_2023 = constructor cal None None"

definition view_leap :: "cal_date MatMultiYearView" where
  "view_leap = assigned cal view_2023 (DateObj (CalDate 2024 1 29))"

definition view_bounded :: "cal_date MatMultiYearView" where
  "view_bounded =
     set_maxDate cal (set_minDate cal view_2023 (DateObj (CalDate 2020 0 1)))
       (DateObj (CalDate 2025 11 31))"

definition view_filtered :: "cal_date MatMultiYearView" where
  "view_filtered = view_bounded\<lparr>dateFilter := Some (\<lambda>d. d = CalDate 2024 2 10)\<rparr>"


definition view_capped :: "cal_date MatMultiYearView" where
  "view_capped =
     assigned cal (set_maxDate cal view_2023 (DateObj (CalDate 2024 8 1)))
       (DateObj (CalDate 2024 5 15))"

definition view_wide :: "cal_date MatMultiYearView" where
  "view_wide =
     set_maxDate cal (set_minDate cal view_2023 (DateObj (CalDate 2000 0 1)))
       (DateObj (CalDate 2050 11 31))"

definition view_bc :: "cal_date MatMultiYearView" where
  "view_bc = assigned cal view_2023 (DateObj (CalDate (- 1) 5 15))"

definition key :: "nat \<Rightarrow> KeyboardEvent" where
  "key k = \<lparr>keyCode = k, altKey = False, defaultPrevented = False\<rparr>"

subsection \<open>The vocabulary of the specification\<close>

text \<open>
  The days of year \<open>y\<close> as the adapter enumerates them: \<open>nth_day ad y n\<close> is \<open>n\<close>
  one-day steps after \<open>createDate y 0 1\<close>, and it is a day of \<open>y\<close> as long as the
  adapter's year of every date up to it is \<open>y\<close>.
\<close>

primrec day_steps :: "'d DateAdapter \<Rightarrow> nat \<Rightarrow> 'd \<Rightarrow> 'd" where
  "day_steps ad 0 d = d"
| "day_steps ad (Suc n) d = day_steps ad n (addCalendarDays ad d 1)"

definition nth_day :: "'d DateAdapter \<Rightarrow> int \<Rightarrow> nat \<Rightarrow> 'd" where
  "nth_day ad y n = day_steps ad n (createDate ad y 0 1)"

definition some_day_passes :: "'d DateAdapter \<Rightarrow> ('d \<Rightarrow> bool) \<Rightarrow> int \<Rightarrow> bool" where
  "some_day_passes ad f y =
     (\<exists>n. (\<forall>k\<le>n. getYear ad (nth_day ad y k) = y) \<and> f (nth_day ad y n))"

text \<open>
  The day-by-day scan of year \<open>y\<close> comes to an end: some step leaves the year or reaches
  a date the filter accepts. A component without a filter never scans.
\<close>

definition scan_ends :: "'d DateAdapter \<Rightarrow> ('d \<Rightarrow> bool) \<Rightarrow> int \<Rightarrow> bool" where
  "scan_ends ad f y = (\<exists>n. getYear ad (nth_day ad y n) \<noteq> y \<or> f (nth_day ad y n))"

definition scans_end :: "'d DateAdapter \<Rightarrow> 'd MatMultiYearView \<Rightarrow> bool" where
  "scans_end ad s = (case dateFilter s of None \<Rightarrow> True | Some f \<Rightarrow> \<forall>y. scan_ends ad f y)"

text \<open>The enablement rule in the words of the specification (section 4.1, step 4).\<close>

definition spec_enabled :: "'d DateAdapter \<Rightarrow> 'd MatMultiYearView \<Rightarrow> int \<Rightarrow> bool" where
  "spec_enabled ad s y =
     ((case u_maxDate s of None \<Rightarrow> True | Some mx \<Rightarrow> \<not> y > getYear ad mx) \<and>
      (case u_minDate s of None \<Rightarrow> True | Some mn \<Rightarrow> \<not> y < getYear ad mn) \<and>
      (case dateFilter s of None \<Rightarrow> True | Some f \<Rightarrow> some_day_passes ad f y))"

text \<open>
  The cell the specification prescribes for year \<open>y\<close> (section 4.1, step 3), and the grid
  of 6 rows of 4 such cells that starts at year \<open>b\<close>.
\<close>

definition cell_for :: "'d DateAdapter \<Rightarrow> 'd MatMultiYearView \<Rightarrow> int \<Rightarrow> 'd MatCalendarCell" where
  "cell_for ad s y =
     \<lparr>cell_value = y, cell_displayValue = getYearName ad (createDate ad y 0 1),
      cell_ariaLabel = getYearName ad (createDate ad y 0 1),
      cell_enabled = spec_enabled ad s y,
      cell_range = (createDate ad y 0 1, createDate ad y 11 31)\<rparr>"

definition page_grid ::
  "'d DateAdapter \<Rightarrow> 'd MatMultiYearView \<Rightarrow> int \<Rightarrow> 'd MatCalendarCell list list" where
  "page_grid ad s b =
     map (\<lambda>r. map (\<lambda>c. cell_for ad s (b + int (4 * r + c))) [0..<4]) [0..<6]"

text \<open>
  Closed forms of what \<open>u_init\<close> returns and of the date \<open>set_activeDate\<close> stores;
  the lemmas below prove that the source's loop and setter compute them.
\<close>

definition init_result :: "'d DateAdapter \<Rightarrow> 'd MatMultiYearView \<Rightarrow> 'd MatMultiYearView" where
  "init_result ad s =
     s\<lparr>u_selectedYear := (case u_selected s of None \<Rightarrow> None | Some date \<Rightarrow> Some (getYear ad date)),
       u_todayYear := getYear ad (today ad),
       u_years := page_grid ad s
          (getYear ad (u_activeDate s) - js_rem (getYear ad (u_activeDate s)) yearsPerPage),
       markForCheckCalls := markForCheckCalls s + 1\<rparr>"

definition stored_date :: "'d DateAdapter \<Rightarrow> 'd MatMultiYearView \<Rightarrow> 'd any_value \<Rightarrow> 'd" where
  "stored_date ad s v =
     clampDate ad
       (case u_getValidDateOrNull ad (deserialize ad v) of None \<Rightarrow> today ad | Some d \<Rightarrow> d)
       (u_minDate s) (u_maxDate s)"

text \<open>
  The page of a year is \<open>floor (year / yearsPerPage)\<close>; its first and last years are the
  ends of that 24-year window.
\<close>

definition page_of :: "int \<Rightarrow> int" where
  "page_of y = y div yearsPerPage"

definition page_first :: "int \<Rightarrow> int" where
  "page_first y = yearsPerPage * page_of y"

definition page_last :: "int \<Rightarrow> int" where
  "page_last y = page_first y + yearsPerPage - 1"




definition valid_date :: "'d DateAdapter \<Rightarrow> 'd \<Rightarrow> bool" where
  "valid_date ad d = (isDateInstance ad (Some d) \<and> isValid ad (Some d))"

definition bounds_valid :: "'d DateAdapter \<Rightarrow> 'd MatMultiYearView \<Rightarrow> bool" where
  "bounds_valid ad s =
     ((case u_minDate s of None \<Rightarrow> True | Some l \<Rightarrow> valid_date ad l) \<and>
      (case u_maxDate s of None \<Rightarrow> True | Some h \<Rightarrow> valid_date ad h))"

text \<open>
  The move by \<open>n\<close> years is unhindered: the adapter adds \<open>n\<close> to the year, and the
  setter stores the moved date as it is (it is a valid date instance and clamping returns
  it). This speaks of the one delta \<open>n\<close> only; other moves may well be clamped.
\<close>

definition moves_by :: "'d DateAdapter \<Rightarrow> 'd MatMultiYearView \<Rightarrow> int \<Rightarrow> bool" where
  "moves_by ad s n =
     (getYear ad (addCalendarYears ad (u_activeDate s) n) = getYear ad (u_activeDate s) + n \<and>
      u_getValidDateOrNull ad (deserialize ad (DateObj (addCalendarYears ad (u_activeDate s) n))) =
        Some (addCalendarYears ad (u_activeDate s) n) \<and>
      clampDate ad (addCalendarYears ad (u_activeDate s) n) (u_minDate s) (u_maxDate s) =
        addCalendarYears ad (u_activeDate s) n)"

text \<open>The adapter's comparison tells dates of different years apart.\<close>

definition compare_respects_year :: "'d DateAdapter \<Rightarrow> bool" where
  "compare_respects_year ad = (\<forall>a b. compareDate ad a b = 0 \<longrightarrow> getYear ad a = getYear ad b)"

text \<open>Observations of what an operation that may not return has produced.\<close>

definition result_state ::
  "('d MatMultiYearView \<times> KeyboardEvent) option \<Rightarrow> 'd MatMultiYearView option" where
  "result_state r = map_option fst r"

definition emissions :: "'d MatMultiYearView option \<Rightarrow> 'd emission list option" where
  "emissions r = map_option emitted r"


definition active_year :: "'d DateAdapter \<Rightarrow> 'd MatMultiYearView option \<Rightarrow> int option" where
  "active_year ad r = map_option (getYear ad \<circ> u_activeDate) r"

section \<open>Properties\<close>

subsection \<open>The loops return, and what they return\<close>

lemmas keycode_defs =
  ENTER_def SPACE_def PAGE_UP_def PAGE_DOWN_def END_def HOME_def
  LEFT_ARROW_def UP_ARROW_def RIGHT_ARROW_def DOWN_ARROW_def

lemmas cal_defs =
  cal_def calendar_def constructor_def view_2023_def view_bounded_def key_def
  set_minDate_def set_maxDate_def u_getValidDateOrNull_def cal_deserialize_def cal_valid_def
  days_in_month_def is_leap_def cal_compareDate_def cal_clampDate_def cal_addCalendarYears_def

lemma scanYear_result:
  assumes "getYear ad (day_steps ad n d) \<noteq> y \<or> f (day_steps ad n d)"
  shows "scanYear ad f y d =
         Some (\<exists>m. (\<forall>k\<le>m. getYear ad (day_steps ad k d) = y) \<and> f (day_steps ad m d))"
  using assms
proof (induction n arbitrary: d)
  case 0
  let ?P = "\<lambda>d m. (\<forall>k\<le>m. getYear ad (day_steps ad k d) = y) \<and> f (day_steps ad m d)"
  show ?case
  proof (cases "getYear ad d = y")
    case True
    with 0 have "f d" by simp
    with True have "?P d 0" by simp
    then have "\<exists>m. ?P d m" by blast
    with True \<open>f d\<close> show ?thesis by (subst scanYear.simps) simp
  next
    case False
    then have "\<not> ?P d m" for m by (auto intro: exI[of _ 0])
    with False show ?thesis by (subst scanYear.simps) simp
  qed
next
  case (Suc n)
  let ?P = "\<lambda>d m. (\<forall>k\<le>m. getYear ad (day_steps ad k d) = y) \<and> f (day_steps ad m d)"
  let ?d' = "addCalendarDays ad d 1"
  show ?case
  proof (cases "getYear ad d = y")
    case False
    then have "\<not> ?P d m" for m by (auto intro: exI[of _ 0])
    with False show ?thesis by (subst scanYear.simps) simp
  next
    case inYear: True
    show ?thesis
    proof (cases "f d")
      case True
      with inYear have "?P d 0" by simp
      then have "\<exists>m. ?P d m" by blast
      with True inYear show ?thesis by (subst scanYear.simps) simp
    next
      case False
      from Suc.prems have "getYear ad (day_steps ad n ?d') \<noteq> y \<or> f (day_steps ad n ?d')"
        by simp
      from Suc.IH[OF this] have ih: "scanYear ad f y ?d' = Some (\<exists>m. ?P ?d' m)" .
      have "(\<exists>m. ?P d m) \<longleftrightarrow> (\<exists>m. ?P ?d' m)"
      proof
        assume "\<exists>m. ?P d m"
        then obtain m where m: "?P d m" by blast
        with False obtain m' where m': "m = Suc m'" by (cases m) auto
        have "getYear ad (day_steps ad k ?d') = y" if "k \<le> m'" for k
        proof -
          from that m' have "Suc k \<le> m" by simp
          with m have "getYear ad (day_steps ad (Suc k) d) = y" by blast
          then show ?thesis by simp
        qed
        moreover from m m' have "f (day_steps ad m' ?d')" by simp
        ultimately show "\<exists>m. ?P ?d' m" by blast
      next
        assume "\<exists>m. ?P ?d' m"
        then obtain m where m: "?P ?d' m" by blast
        have "getYear ad (day_steps ad k d) = y" if "k \<le> Suc m" for k
        proof (cases k)
          case 0
          with inYear show ?thesis by simp
        next
          case (Suc k')
          with that have "k' \<le> m" by simp
          with m have "getYear ad (day_steps ad k' ?d') = y" by blast
          with Suc show ?thesis by simp
        qed
        moreover from m have "f (day_steps ad (Suc m) d)" by simp
        ultimately have "?P d (Suc m)" by blast
        then show "\<exists>m. ?P d m" by blast
      qed
      with ih inYear False show ?thesis by (subst scanYear.simps) simp
    qed
  qed
qed

lemma scanYear_createDate:
  assumes "scan_ends ad f y"
  shows "scanYear ad f y (createDate ad y 0 1) = Some (some_day_passes ad f y)"
proof -
  from assms obtain n where "getYear ad (nth_day ad y n) \<noteq> y \<or> f (nth_day ad y n)"
    unfolding scan_ends_def by blast
  then show ?thesis
    unfolding some_day_passes_def nth_day_def by (rule scanYear_result)
qed


lemma u_shouldEnableYear_spec:
  assumes "scans_end ad s"
  shows "u_shouldEnableYear ad s y = Some (spec_enabled ad s y)"
proof (cases "dateFilter s")
  case None
  then show ?thesis
    by (auto simp: u_shouldEnableYear_def spec_enabled_def split: option.splits)
next
  case (Some f)
  with assms have "scan_ends ad f y" by (simp add: scans_end_def)
  then have "scanYear ad f y (createDate ad y 0 1) = Some (some_day_passes ad f y)"
    by (rule scanYear_createDate)
  with Some show ?thesis
    by (auto simp: u_shouldEnableYear_def spec_enabled_def split: option.splits)
qed

lemma u_createCellForYear_spec:
  assumes "scans_end ad s"
  shows "u_createCellForYear ad s y = Some (cell_for ad s y)"
  by (simp add: u_createCellForYear_def Let_def u_shouldEnableYear_spec[OF assms] cell_for_def)

lemma init_loop_rows:
  assumes "scans_end ad s"
  shows "init_loop ad s b 0 [] [] = Some (page_grid ad s b)"
  by (simp add: u_createCellForYear_spec[OF assms] yearsPerPage_def yearsPerRow_def upt_rec
      page_grid_def)

lemma scans_end_frame [simp]:
  "scans_end ad (s\<lparr>u_activeDate := a\<rparr>) = scans_end ad s"
  "scans_end ad (s\<lparr>u_todayYear := t\<rparr>) = scans_end ad s"
  "scans_end ad (s\<lparr>u_selectedYear := y\<rparr>) = scans_end ad s"
  "scans_end ad (s\<lparr>emitted := e\<rparr>) = scans_end ad s"
  by (simp_all add: scans_end_def)

lemma spec_enabled_frame [simp]:
  "spec_enabled ad (s\<lparr>u_activeDate := a\<rparr>) = spec_enabled ad s"
  "spec_enabled ad (s\<lparr>u_todayYear := t\<rparr>) = spec_enabled ad s"
  "spec_enabled ad (s\<lparr>u_selectedYear := y\<rparr>) = spec_enabled ad s"
  by (simp_all add: spec_enabled_def fun_eq_iff)

lemma page_grid_frame [simp]:
  "page_grid ad (s\<lparr>u_activeDate := a\<rparr>) = page_grid ad s"
  "page_grid ad (s\<lparr>u_todayYear := t\<rparr>) = page_grid ad s"
  "page_grid ad (s\<lparr>u_selectedYear := y\<rparr>) = page_grid ad s"
  by (simp_all add: page_grid_def cell_for_def fun_eq_iff)

lemma u_init_result:
  assumes "scans_end ad s"
  shows "u_init ad s = Some (init_result ad s)"
proof -
  let ?s2 = "(extractYear ad s)\<lparr>u_todayYear := getYear ad (today ad)\<rparr>"
  have "scans_end ad ?s2" using assms by (simp add: extractYear_def)
  from init_loop_rows[OF this] show ?thesis
    by (simp add: u_init_def Let_def init_result_def extractYear_def)
qed

lemma init_result_frame [simp]:
  "u_activeDate (init_result ad s) = u_activeDate s"
  "u_minDate (init_result ad s) = u_minDate s"
  "u_maxDate (init_result ad s) = u_maxDate s"
  "dateFilter (init_result ad s) = dateFilter s"
  "emitted (init_result ad s) = emitted s"
  "focusActiveCellCalls (init_result ad s) = focusActiveCellCalls s"
  "markForCheckCalls (init_result ad s) = markForCheckCalls s + 1"
  by (simp_all add: init_result_def)

lemma set_activeDate_result:
  assumes "scans_end ad s"
  shows "set_activeDate ad s v =
     Some (if page_of (getYear ad (u_activeDate s)) \<noteq> page_of (getYear ad (stored_date ad s v))
           then init_result ad (s\<lparr>u_activeDate := stored_date ad s v\<rparr>)
           else s\<lparr>u_activeDate := stored_date ad s v\<rparr>)"
proof -
  have "scans_end ad (s\<lparr>u_activeDate := stored_date ad s v\<rparr>)" using assms by simp
  from u_init_result[OF this] show ?thesis
    by (simp add: set_activeDate_def Let_def stored_date_def page_of_def)
qed

subsection \<open>The sample components\<close>

lemma view_leap_eq: "view_leap = view_2023\<lparr>u_activeDate := CalDate 2024 1 29\<rparr>"
  by (simp add: view_leap_def assigned_def set_activeDate_def Let_def yearsPerPage_def cal_defs)

lemma view_capped_eq:
  "view_capped =
     (set_maxDate cal view_2023 (DateObj (CalDate 2024 8 1)))\<lparr>u_activeDate := CalDate 2024 5 15\<rparr>"
  by (simp add: view_capped_def assigned_def set_activeDate_def Let_def yearsPerPage_def cal_defs)

lemma view_bc_eq:
  "view_bc = init_result cal (view_2023\<lparr>u_activeDate := CalDate (- 1) 5 15\<rparr>)"
proof -
  have h: "scans_end cal view_2023"
    by (simp add: scans_end_def cal_defs)
  have d: "stored_date cal view_2023 (DateObj (CalDate (- 1) 5 15)) = CalDate (- 1) 5 15"
    by (simp add: stored_date_def cal_defs)
  have p: "page_of (getYear cal (u_activeDate view_2023)) \<noteq> page_of (getYear cal (CalDate (- 1) 5 15))"
    by (simp add: page_of_def yearsPerPage_def cal_defs)
  show ?thesis
    unfolding view_bc_def assigned_def set_activeDate_result[OF h] d using p by simp
qed

lemmas cal_simps = cal_defs view_leap_eq view_capped_eq view_bc_eq

subsection \<open>The sample calendar enumerates the days of a year\<close>

text \<open>
  On the sample calendar the day-by-day enumeration from 1 January visits exactly the valid
  dates of the year and then leaves the year, so every scan ends and "some day of the year
  passes the filter" has its calendar meaning.
\<close>

lemma cal_step [simp]: "addCalendarDays (calendar t) d 1 = next_day d"
  by (simp add: calendar_def cal_addCalendarDays_def)

lemma cal_getYear [simp]: "getYear (calendar t) = cal_year"
  by (simp add: calendar_def)

lemma cal_createDate [simp]: "createDate (calendar t) = CalDate"
  by (simp add: calendar_def)

lemma days_in_month_ge: "28 \<le> days_in_month y m"
  by (simp add: days_in_month_def)

lemma days_in_month_le: "days_in_month y m \<le> 31"
  by (simp add: days_in_month_def)

lemma day_steps_add: "day_steps ad (a + b) d = day_steps ad b (day_steps ad a d)"
  by (induction a arbitrary: d) simp_all

lemma day_steps_in_month:
  "cal_day d + int k \<le> days_in_month (cal_year d) (cal_month d) \<Longrightarrow>
   day_steps (calendar t) k d = CalDate (cal_year d) (cal_month d) (cal_day d + int k)"
proof (induction k arbitrary: d)
  case 0
  then show ?case by simp
next
  case (Suc k)
  then have lt: "cal_day d < days_in_month (cal_year d) (cal_month d)" by simp
  then have nd: "next_day d = CalDate (cal_year d) (cal_month d) (cal_day d + 1)"
    by (simp add: next_day_def)
  have "day_steps (calendar t) k (next_day d) =
        CalDate (cal_year (next_day d)) (cal_month (next_day d)) (cal_day (next_day d) + int k)"
    by (rule Suc.IH) (use Suc.prems nd in simp)
  then show ?case by (simp add: nd add.assoc)
qed

lemma day_steps_month_end:
  assumes "cal_month d < 11" "cal_day d = 1"
  shows "day_steps (calendar t) (nat (days_in_month (cal_year d) (cal_month d))) d =
         CalDate (cal_year d) (cal_month d + 1) 1"
proof -
  let ?n = "days_in_month (cal_year d) (cal_month d)"
  have n: "nat ?n = nat (?n - 1) + 1" using days_in_month_ge[of "cal_year d" "cal_month d"] by simp
  have "day_steps (calendar t) (nat (?n - 1)) d = CalDate (cal_year d) (cal_month d) ?n"
    using day_steps_in_month[of d "nat (?n - 1)" t] assms
      days_in_month_ge[of "cal_year d" "cal_month d"] by simp
  then show ?thesis
    unfolding n day_steps_add using assms by (simp add: next_day_def)
qed

lemma day_steps_to_month:
  "m \<le> 11 \<Longrightarrow> \<exists>n. day_steps (calendar t) n (CalDate y 0 1) = CalDate y (int m) 1"
proof (induction m)
  case 0
  have "day_steps (calendar t) 0 (CalDate y 0 1) = CalDate y (int 0) 1" by simp
  then show ?case by blast
next
  case (Suc m)
  then obtain n where n: "day_steps (calendar t) n (CalDate y 0 1) = CalDate y (int m) 1"
    by auto
  have "day_steps (calendar t) (n + nat (days_in_month y (int m))) (CalDate y 0 1) =
        CalDate y (int m + 1) 1"
    unfolding day_steps_add n
    using day_steps_month_end[of "CalDate y (int m) 1" t] Suc.prems by simp
  then show ?case by (auto simp: add.commute)
qed

lemma day_steps_reaches:
  assumes "cal_valid d"
  shows "\<exists>n. nth_day (calendar t) (cal_year d) n = d"
proof -
  from assms have m: "nat (cal_month d) \<le> 11" "int (nat (cal_month d)) = cal_month d"
    by (auto simp: cal_valid_def)
  from day_steps_to_month[OF m(1), of t "cal_year d"] m(2) obtain n where
    n: "day_steps (calendar t) n (CalDate (cal_year d) 0 1) = CalDate (cal_year d) (cal_month d) 1"
    by auto
  have "day_steps (calendar t) (n + nat (cal_day d - 1)) (CalDate (cal_year d) 0 1) =
        CalDate (cal_year d) (cal_month d) (cal_day d)"
    unfolding day_steps_add n
    using day_steps_in_month[of "CalDate (cal_year d) (cal_month d) 1" "nat (cal_day d - 1)" t] assms
    by (simp add: cal_valid_def)
  then show ?thesis unfolding nth_day_def by (intro exI[of _ "n + nat (cal_day d - 1)"]) simp
qed

lemma next_day_year_mono: "cal_year d \<le> cal_year (next_day d)"
  by (simp add: next_day_def)

lemma day_steps_year_mono: "cal_year d \<le> cal_year (day_steps (calendar t) k d)"
proof (induction k arbitrary: d)
  case 0
  show ?case by simp
next
  case (Suc k)
  have "cal_year d \<le> cal_year (next_day d)" by (rule next_day_year_mono)
  also have "\<dots> \<le> cal_year (day_steps (calendar t) k (next_day d))" by (rule Suc.IH)
  finally show ?case by simp
qed

lemma day_steps_year_between:
  assumes "k \<le> n" "cal_year (day_steps (calendar t) n d) = cal_year d"
  shows "cal_year (day_steps (calendar t) k d) = cal_year d"
proof -
  from assms(1) obtain j where j: "n = k + j" by (auto simp: le_iff_add)
  have "cal_year (day_steps (calendar t) k d) \<le> cal_year (day_steps (calendar t) n d)"
    unfolding j day_steps_add by (rule day_steps_year_mono)
  with assms(2) day_steps_year_mono[of d t k] show ?thesis by simp
qed

lemma next_day_valid: "cal_valid d \<Longrightarrow> cal_valid (next_day d)"
  by (auto simp: cal_valid_def next_day_def days_in_month_def)

lemma day_steps_valid: "cal_valid d \<Longrightarrow> cal_valid (day_steps (calendar t) k d)"
  by (induction k arbitrary: d) (simp_all add: next_day_valid)

lemma calendar_some_day_passes:
  "some_day_passes (calendar t) f y \<longleftrightarrow> (\<exists>d. cal_valid d \<and> cal_year d = y \<and> f d)"
proof
  assume "some_day_passes (calendar t) f y"
  then obtain n where n: "cal_year (nth_day (calendar t) y n) = y" "f (nth_day (calendar t) y n)"
    unfolding some_day_passes_def by auto
  have "cal_valid (CalDate y 0 1)" by (simp add: cal_valid_def days_in_month_def)
  then have "cal_valid (nth_day (calendar t) y n)"
    unfolding nth_day_def by (simp add: day_steps_valid)
  with n show "\<exists>d. cal_valid d \<and> cal_year d = y \<and> f d" by blast
next
  assume "\<exists>d. cal_valid d \<and> cal_year d = y \<and> f d"
  then obtain d where d: "cal_valid d" "cal_year d = y" "f d" by blast
  from day_steps_reaches[OF d(1), of t] d(2) obtain n where
    n: "nth_day (calendar t) y n = d" by auto
  have "cal_year (nth_day (calendar t) y k) = y" if "k \<le> n" for k
    using day_steps_year_between[of k n t "CalDate y 0 1"] that n d(2)
    by (simp add: nth_day_def)
  with n d(3) show "some_day_passes (calendar t) f y"
    unfolding some_day_passes_def by auto
qed

lemma calendar_year_ends: "\<exists>n. cal_year (nth_day (calendar t) y n) \<noteq> y"
proof -
  obtain n where n: "day_steps (calendar t) n (CalDate y 0 1) = CalDate y 11 1"
    using day_steps_to_month[of 11 t y] by auto
  have "day_steps (calendar t) 30 (CalDate y 11 1) = CalDate y 11 31"
    using day_steps_in_month[of "CalDate y 11 1" 30 t] by (simp add: days_in_month_def)
  then have "day_steps (calendar t) (n + 30 + 1) (CalDate y 0 1) = CalDate (y + 1) 0 1"
    unfolding day_steps_add n by (simp add: next_day_def days_in_month_def)
  then have "cal_year (nth_day (calendar t) y (n + 30 + 1)) \<noteq> y"
    unfolding nth_day_def by simp
  then show ?thesis by blast
qed

lemma calendar_scans_end: "scans_end (calendar t) s"
  using calendar_year_ends[of t]
  by (auto simp: scans_end_def scan_ends_def split: option.splits)

lemma view_filtered_enabled:
  "spec_enabled cal view_filtered y \<longleftrightarrow> y = 2024"
proof -
  have "some_day_passes cal (\<lambda>d. d = CalDate 2024 2 10) y \<longleftrightarrow> y = 2024"
    unfolding cal_def calendar_some_day_passes
    by (auto simp: cal_valid_def days_in_month_def)
  then show ?thesis
    by (auto simp: spec_enabled_def view_filtered_def cal_simps)
qed

subsection \<open>The keyboard handler\<close>

lemma after_switch_set_activeDate:
  assumes "scans_end ad s"
  shows "\<exists>s'. after_switch ad (u_activeDate s) event (set_activeDate ad s v) =
            Some (s', event\<lparr>defaultPrevented := True\<rparr>) \<and>
     u_activeDate s' = stored_date ad s v \<and>
     emitted s' =
       emitted s @
         (if compareDate ad (u_activeDate s) (stored_date ad s v) \<noteq> 0
          then [ActiveDateChange (stored_date ad s v)] else []) \<and>
     focusActiveCellCalls s' = focusActiveCellCalls s + 1"
  by (simp add: set_activeDate_result[OF assms] after_switch_def u_focusActiveCell_def Let_def)

lemma handler_moves:
  assumes "keyCode event \<in>
             {LEFT_ARROW, RIGHT_ARROW, UP_ARROW, DOWN_ARROW, HOME, END, PAGE_UP, PAGE_DOWN}"
  shows "\<exists>n. u_handleCalendarBodyKeydown ad s event =
           after_switch ad (u_activeDate s) event
             (set_activeDate ad s (DateObj (addCalendarYears ad (u_activeDate s) n)))"
  using assms by (auto simp: u_handleCalendarBodyKeydown_def Let_def keycode_defs)

lemma handler_HOME:
  assumes "keyCode event = HOME"
  shows "u_handleCalendarBodyKeydown ad s event =
           after_switch ad (u_activeDate s) event
             (set_activeDate ad s
                (DateObj (addCalendarYears ad (u_activeDate s)
                   (js_rem (- getYear ad (u_activeDate s)) yearsPerPage))))"
  using assms by (simp add: u_handleCalendarBodyKeydown_def Let_def keycode_defs)

lemma handler_END:
  assumes "keyCode event = END"
  shows "u_handleCalendarBodyKeydown ad s event =
           after_switch ad (u_activeDate s) event
             (set_activeDate ad s
                (DateObj (addCalendarYears ad (u_activeDate s)
                   (yearsPerPage - js_rem (getYear ad (u_activeDate s)) yearsPerPage - 1))))"
  using assms by (simp add: u_handleCalendarBodyKeydown_def Let_def keycode_defs)

lemma calendar_compare_respects_year: "compare_respects_year (calendar t)"
  by (simp add: compare_respects_year_def calendar_def cal_compareDate_def)

lemma view_2023_right:
  "u_handleCalendarBodyKeydown cal view_2023 (key RIGHT_ARROW) =
     Some (view_2023\<lparr>u_activeDate := CalDate 2024 5 15,
                      emitted := [ActiveDateChange (CalDate 2024 5 15)],
                      focusActiveCellCalls := 1\<rparr>,
           (key RIGHT_ARROW)\<lparr>defaultPrevented := True\<rparr>)"
  by (simp add: u_handleCalendarBodyKeydown_def Let_def keycode_defs after_switch_def
      set_activeDate_def u_isRtl_def u_focusActiveCell_def yearsPerPage_def cal_simps)

lemma view_capped_right:
  "u_handleCalendarBodyKeydown cal view_capped (key RIGHT_ARROW) =
     Some (view_capped\<lparr>u_activeDate := CalDate 2024 8 1,
                        emitted := [ActiveDateChange (CalDate 2024 8 1)],
                        focusActiveCellCalls := 1\<rparr>,
           (key RIGHT_ARROW)\<lparr>defaultPrevented := True\<rparr>)"
  by (simp add: u_handleCalendarBodyKeydown_def Let_def keycode_defs after_switch_def
      set_activeDate_def u_isRtl_def u_focusActiveCell_def yearsPerPage_def cal_simps)

subsection \<open>The truncating remainder and the pages\<close>

lemma js_rem_minus: "js_rem (- y) b = - js_rem y b"
  by (simp add: js_rem_def)

lemma js_rem_page_first:
  "y - js_rem y yearsPerPage =
     (if 0 \<le> y \<or> js_rem y yearsPerPage = 0 then page_first y else page_first y + yearsPerPage)"
proof -
  have m: "y - y mod 24 = 24 * (y div 24)"
    by (simp add: minus_mod_eq_mult_div)
  show ?thesis
  proof (cases "0 \<le> y")
    case True
    then have "js_rem y 24 = y mod 24"
      by (simp add: js_rem_def sgn_if)
    with True m show ?thesis
      by (simp add: page_first_def page_of_def yearsPerPage_def)
  next
    case False
    then have r: "js_rem y 24 = - ((- y) mod 24)"
      by (simp add: js_rem_def sgn_if)
    have n: "(- y) mod 24 = (if y mod 24 = 0 then 0 else 24 - y mod 24)"
      by (simp add: zmod_zminus1_eq_if)
    show ?thesis
      unfolding yearsPerPage_def page_first_def page_of_def r n using False m
      by (simp split: if_splits, presburger)
  qed
qed

lemma moves_by_stored:
  assumes "moves_by ad s n"
  shows "stored_date ad s (DateObj (addCalendarYears ad (u_activeDate s) n)) =
           addCalendarYears ad (u_activeDate s) n"
    and "getYear ad (addCalendarYears ad (u_activeDate s) n) = getYear ad (u_activeDate s) + n"
  using assms by (simp_all add: moves_by_def stored_date_def)

lemma active_year_after_switch:
  assumes "scans_end ad s"
  shows "active_year ad (result_state
           (after_switch ad (u_activeDate s) event (set_activeDate ad s v))) =
         Some (getYear ad (stored_date ad s v))"
  using after_switch_set_activeDate[OF assms, of event v]
  by (auto simp: active_year_def result_state_def)

lemma view_bc_facts:
  "scans_end cal view_bc" "getYear cal (u_activeDate view_bc) = - 1" "moves_by cal view_bc n"
    apply (simp add: scans_end_def cal_simps)
   apply (simp add: cal_simps)
  apply (simp add: moves_by_def cal_simps)
  done

lemma view_wide_facts:
  "scans_end cal view_wide" "getYear cal (u_activeDate view_wide) = 2023"
  "u_minDate view_wide = Some (CalDate 2000 0 1)" "u_maxDate view_wide = Some (CalDate 2050 11 31)"
  "moves_by cal view_wide (- 7)" "moves_by cal view_wide 16" "\<not> moves_by cal view_wide 100"
  by (simp_all add: scans_end_def moves_by_def view_wide_def cal_simps)

subsection \<open>Validation and clamping\<close>

lemma u_getValidDateOrNull_valid:
  "u_getValidDateOrNull ad obj = Some d \<Longrightarrow> valid_date ad d"
  by (auto simp: u_getValidDateOrNull_def valid_date_def split: if_splits)

lemma bounds_valid_constructor: "bounds_valid ad (constructor ad sel dir)"
  by (simp add: bounds_valid_def constructor_def)

lemma bounds_valid_set_minDate:
  "bounds_valid ad s \<Longrightarrow> bounds_valid ad (set_minDate ad s v)"
  by (auto simp: bounds_valid_def set_minDate_def dest: u_getValidDateOrNull_valid
      split: option.splits)

lemma bounds_valid_set_maxDate:
  "bounds_valid ad s \<Longrightarrow> bounds_valid ad (set_maxDate ad s v)"
  by (auto simp: bounds_valid_def set_maxDate_def dest: u_getValidDateOrNull_valid
      split: option.splits)






subsection \<open>The scenarios of the specification\<close>

text \<open>
  Two scenarios of section 8 of the specification, run on the sample calendar: with the
  bounds 2020 to 2025 the page 2016 to 2039 has exactly the years 2020 to 2025 enabled, and
  one page down from 2023 lands on 2047 and generates the page 2040 to 2063.
\<close>

lemma page_grid_values:
  "map cell_value (concat (page_grid ad s b)) = map (\<lambda>i. b + int i) [0..<24]"
  by (simp add: page_grid_def cell_for_def upt_rec)

lemma page_grid_enabled:
  "map cell_enabled (concat (page_grid ad s b)) = map (\<lambda>i. spec_enabled ad s (b + int i)) [0..<24]"
  by (simp add: page_grid_def cell_for_def upt_rec)

lemma scenario_bounds:
  "map_option (\<lambda>s'. map cell_enabled (concat (u_years s'))) (u_init cal view_bounded) =
     Some [False, False, False, False, True, True, True, True, True, True, False, False,
           False, False, False, False, False, False, False, False, False, False, False, False]"
proof -
  have h: "scans_end cal view_bounded" unfolding cal_def by (rule calendar_scans_end)
  have b: "getYear cal (u_activeDate view_bounded) - js_rem (getYear cal (u_activeDate view_bounded)) yearsPerPage = 2016"
    by (simp add: cal_simps js_rem_def yearsPerPage_def)
  have e: "spec_enabled cal view_bounded y \<longleftrightarrow> 2020 \<le> y \<and> y \<le> 2025" for y
    by (auto simp: spec_enabled_def cal_simps)
  show ?thesis
    unfolding u_init_result[OF h] init_result_def b
    by (simp add: page_grid_enabled e upt_rec)
qed

lemma scenario_page_down:
  "map_option (\<lambda>(s', e). (u_activeDate s', map cell_value (concat (u_years s')), emitted s'))
     (u_handleCalendarBodyKeydown cal view_2023 (key PAGE_DOWN)) =
   Some (CalDate 2047 5 15,
         [2040, 2041, 2042, 2043, 2044, 2045, 2046, 2047, 2048, 2049, 2050, 2051,
          2052, 2053, 2054, 2055, 2056, 2057, 2058, 2059, 2060, 2061, 2062, 2063],
         [ActiveDateChange (CalDate 2047 5 15)])"
proof -
  have h: "scans_end cal view_2023" unfolding cal_def by (rule calendar_scans_end)
  have d: "stored_date cal view_2023 (DateObj (addCalendarYears cal (u_activeDate view_2023) 24)) =
           CalDate 2047 5 15"
    by (simp add: stored_date_def cal_simps)
  have p: "page_of (getYear cal (u_activeDate view_2023)) \<noteq> page_of (getYear cal (CalDate 2047 5 15))"
    by (simp add: page_of_def yearsPerPage_def cal_simps)
  have r: "js_rem 2047 24 = 7" by (simp add: js_rem_def)
  have k: "u_handleCalendarBodyKeydown cal view_2023 (key PAGE_DOWN) =
           after_switch cal (u_activeDate view_2023) (key PAGE_DOWN)
             (set_activeDate cal view_2023
                (DateObj (addCalendarYears cal (u_activeDate view_2023) 24)))"
    by (simp add: u_handleCalendarBodyKeydown_def Let_def keycode_defs key_def yearsPerPage_def)
  show ?thesis
    unfolding k set_activeDate_result[OF h] d using p
    by (simp add: after_switch_def u_focusActiveCell_def init_result_def page_grid_values
        yearsPerPage_def r upt_rec)
       (simp add: cal_simps r)
qed

section \<open>The claims\<close>

text \<open>
  Each claim is stated for every adapter. Where page generation can run, a theorem assumes
  \<open>scans_end\<close>: the day scan of \<^verbatim>\<open>_shouldEnableYear\<close> ends. This holds when no
  filter is set and, on the sample calendar, for every filter (\<open>calendar_scans_end\<close>);
  without it the source's loop does not return. Each theorem is followed by its evaluation
  on the sample calendar.
\<close>

text \<open>
  Claim C1. Whatever the active date, \<open>u_init\<close> returns (given that the filter scans
  end) and leaves a grid of exactly 24 cells whose years are strictly ascending, in 6 rows
  of 4 in generation order; the years are \<open>activeYear - (activeYear mod 24) + i\<close> for
  \<open>i\<close> from 0 to 23, where \<open>mod\<close> is the source's truncating \<^verbatim>\<open>%\<close> (which is the
  mathematical remainder for a non-negative year).
\<close>

theorem C1_init_generates_page:
  assumes "scans_end ad s"
  shows "\<exists>s'. u_init ad s = Some s' \<and>
     (let activeYear = getYear ad (u_activeDate s);
          ys = map cell_value (concat (u_years s'))
      in length ys = nat yearsPerPage \<and>
         sorted_wrt (<) ys \<and>
         length (u_years s') = 6 \<and>
         (\<forall>row \<in> set (u_years s'). length row = nat yearsPerRow) \<and>
         ys = map (\<lambda>i. activeYear - js_rem activeYear yearsPerPage + int i) [0..<nat yearsPerPage] \<and>
         (0 \<le> activeYear \<longrightarrow> js_rem activeYear yearsPerPage = activeYear mod yearsPerPage))"
proof -
  have "u_init ad s = Some (init_result ad s)" using assms by (rule u_init_result)
  moreover have "0 \<le> y \<longrightarrow> js_rem y yearsPerPage = y mod yearsPerPage" for y
    by (simp add: js_rem_def yearsPerPage_def sgn_if)
  ultimately show ?thesis
    by (simp add: init_result_def page_grid_def cell_for_def Let_def yearsPerPage_def
        yearsPerRow_def upt_rec)
qed

theorem C1_init_generates_page_witness:
  "scans_end cal view_2023 \<and>
   (\<exists>s'. u_init cal view_2023 = Some s' \<and>
      length (u_years s') = 6 \<and>
      map cell_value (concat (u_years s')) =
        [2016, 2017, 2018, 2019, 2020, 2021, 2022, 2023, 2024, 2025, 2026, 2027,
         2028, 2029, 2030, 2031, 2032, 2033, 2034, 2035, 2036, 2037, 2038, 2039])"
proof -
  have h: "scans_end cal view_2023"
    by (simp add: scans_end_def view_2023_def constructor_def)
  have y: "getYear cal (u_activeDate view_2023) = 2023"
    by (simp add: cal_def calendar_def view_2023_def constructor_def)
  have r: "js_rem 2023 24 = 7"
    by (simp add: js_rem_def)
  from C1_init_generates_page [OF h] h show ?thesis
    unfolding Let_def y yearsPerPage_def r by (auto simp: upt_rec)
qed

text \<open>
  Claim C2. For every year \<open>y\<close> the generated cell is enabled if and only if \<open>y\<close> is
  not after the year of \<open>maxDate\<close> when that is set, not before the year of \<open>minDate\<close>
  when that is set, and no filter is configured or some day of year \<open>y\<close> passes the filter
  (\<open>spec_enabled\<close>); this holds for every cell of a generated page. A year beyond a bound
  gets a disabled cell whatever the filter, even one whose scan would not end.
\<close>

theorem C2_cell_enabled_iff:
  "(scans_end ad s \<longrightarrow>
      (\<exists>c. u_createCellForYear ad s y = Some c \<and> cell_value c = y \<and>
           (cell_enabled c \<longleftrightarrow> spec_enabled ad s y)) \<and>
      (\<exists>s'. u_init ad s = Some s' \<and>
           (\<forall>c \<in> set (concat (u_years s')).
              cell_enabled c \<longleftrightarrow> spec_enabled ad s (cell_value c)))) \<and>
   ((case u_maxDate s of None \<Rightarrow> False | Some mx \<Rightarrow> y > getYear ad mx) \<or>
    (case u_minDate s of None \<Rightarrow> False | Some mn \<Rightarrow> y < getYear ad mn) \<longrightarrow>
      (\<exists>c. u_createCellForYear ad s y = Some c \<and> cell_value c = y \<and> \<not> cell_enabled c))"
proof (intro conjI impI)
  assume h: "scans_end ad s"
  show "\<exists>c. u_createCellForYear ad s y = Some c \<and> cell_value c = y \<and>
           (cell_enabled c \<longleftrightarrow> spec_enabled ad s y)"
    by (simp add: u_createCellForYear_spec[OF h] cell_for_def)
  have "\<forall>c \<in> set (concat (page_grid ad s b)). cell_enabled c \<longleftrightarrow> spec_enabled ad s (cell_value c)"
    for b
    by (simp add: page_grid_def cell_for_def)
  then show "\<exists>s'. u_init ad s = Some s' \<and>
           (\<forall>c \<in> set (concat (u_years s')).
              cell_enabled c \<longleftrightarrow> spec_enabled ad s (cell_value c))"
    by (simp add: u_init_result[OF h] init_result_def)
next
  assume "(case u_maxDate s of None \<Rightarrow> False | Some mx \<Rightarrow> y > getYear ad mx) \<or>
    (case u_minDate s of None \<Rightarrow> False | Some mn \<Rightarrow> y < getYear ad mn)"
  then have "u_shouldEnableYear ad s y = Some False"
    by (simp add: u_shouldEnableYear_def)
  then show "\<exists>c. u_createCellForYear ad s y = Some c \<and> cell_value c = y \<and> \<not> cell_enabled c"
    by (simp add: u_createCellForYear_def Let_def)
qed

theorem C2_cell_enabled_iff_witness:
  "scans_end cal view_filtered \<and>
   (\<exists>c. u_createCellForYear cal view_filtered 2024 = Some c \<and> cell_value c = 2024 \<and>
        cell_enabled c) \<and>
   (\<exists>c. u_createCellForYear cal view_filtered 2023 = Some c \<and> cell_value c = 2023 \<and>
        \<not> cell_enabled c) \<and>
   (\<exists>c. u_createCellForYear cal view_filtered 2026 = Some c \<and> cell_value c = 2026 \<and>
        \<not> cell_enabled c)"
proof -
  have h: "scans_end cal view_filtered"
    unfolding cal_def by (rule calendar_scans_end)
  from h C2_cell_enabled_iff [of cal view_filtered 2024]
    C2_cell_enabled_iff [of cal view_filtered 2023]
    C2_cell_enabled_iff [of cal view_filtered 2026]
  show ?thesis
    by (simp add: view_filtered_enabled)
qed

text \<open>
  Claim C3. Committing year \<open>year\<close> emits \<open>yearSelected\<close> with
  \<open>createDate year 0 1\<close> and then \<open>selectedChange\<close> with the active date's month and its
  day clamped to the number of days of that month in \<open>year\<close>.
\<close>

theorem C3_yearSelected_emits:
  "emitted (u_yearSelected ad s year) =
     emitted s @
       [YearSelected (createDate ad year 0 1),
        SelectedChange
          (createDate ad year (getMonth ad (u_activeDate s))
             (min (getDate ad (u_activeDate s))
                  (getNumDaysInMonth ad (createDate ad year (getMonth ad (u_activeDate s)) 1))))]"
  by (simp add: u_yearSelected_def Let_def)

theorem C3_yearSelected_emits_witness:
  "emitted (u_yearSelected cal view_leap 2023) =
     [YearSelected (CalDate 2023 0 1), SelectedChange (CalDate 2023 1 28)]"
  using C3_yearSelected_emits [of cal view_leap 2023]
  by (simp add: cal_simps)

text \<open>
  Claim C4. Assigning the active date stores the validated and clamped date, and the page is
  generated again (\<open>u_init\<close> runs, counted by \<open>markForCheckCalls\<close>) if and only if
  \<open>floor (oldYear / 24)\<close> differs from \<open>floor (newYear / 24)\<close>: within the same page the
  grid stays as it was, across a page boundary the result is that of \<open>u_init\<close>.
\<close>

theorem C4_regenerates_iff_page_changes:
  assumes "scans_end ad s"
  shows "\<exists>s'. set_activeDate ad s v = Some s' \<and>
     u_activeDate s' =
       clampDate ad
         (case u_getValidDateOrNull ad (deserialize ad v) of None \<Rightarrow> today ad | Some d \<Rightarrow> d)
         (u_minDate s) (u_maxDate s) \<and>
     (let oldYear = getYear ad (u_activeDate s); newYear = getYear ad (u_activeDate s')
      in (markForCheckCalls s' = markForCheckCalls s + 1 \<longleftrightarrow> page_of oldYear \<noteq> page_of newYear) \<and>
         (page_of oldYear = page_of newYear \<longrightarrow>
            u_years s' = u_years s \<and> markForCheckCalls s' = markForCheckCalls s) \<and>
         (page_of oldYear \<noteq> page_of newYear \<longrightarrow>
            u_init ad (s\<lparr>u_activeDate := u_activeDate s'\<rparr>) = Some s'))"
proof -
  let ?d = "stored_date ad s v"
  let ?s1 = "s\<lparr>u_activeDate := ?d\<rparr>"
  have d: "?d = clampDate ad
         (case u_getValidDateOrNull ad (deserialize ad v) of None \<Rightarrow> today ad | Some d \<Rightarrow> d)
         (u_minDate s) (u_maxDate s)"
    by (simp add: stored_date_def)
  show ?thesis
  proof (cases "page_of (getYear ad (u_activeDate s)) = page_of (getYear ad ?d)")
    case True
    then have "set_activeDate ad s v = Some ?s1"
      by (simp add: set_activeDate_result[OF assms])
    with True d show ?thesis by (simp add: Let_def)
  next
    case False
    have "scans_end ad ?s1" using assms by simp
    then have i: "u_init ad ?s1 = Some (init_result ad ?s1)" by (rule u_init_result)
    from False have "set_activeDate ad s v = Some (init_result ad ?s1)"
      by (simp add: set_activeDate_result[OF assms])
    with False d i show ?thesis by (simp add: Let_def)
  qed
qed

theorem C4_regenerates_iff_page_changes_witness:
  "scans_end cal view_2023 \<and>
   (\<exists>s'. set_activeDate cal view_2023 (DateObj (CalDate 2030 0 1)) = Some s' \<and>
      u_activeDate s' = CalDate 2030 0 1 \<and> page_of 2023 = page_of 2030 \<and>
      markForCheckCalls s' = 0 \<and> u_years s' = []) \<and>
   (\<exists>s'. set_activeDate cal view_2023 (DateObj (CalDate 2047 5 15)) = Some s' \<and>
      u_activeDate s' = CalDate 2047 5 15 \<and> page_of 2023 \<noteq> page_of 2047 \<and>
      markForCheckCalls s' = 1)"
proof -
  have h: "scans_end cal view_2023"
    unfolding cal_def by (rule calendar_scans_end)
  have p: "page_of 2023 = 84" "page_of 2030 = 84" "page_of 2047 = 85"
    by (simp_all add: page_of_def yearsPerPage_def)
  from h C4_regenerates_iff_page_changes [OF h, of "DateObj (CalDate 2030 0 1)"]
    C4_regenerates_iff_page_changes [OF h, of "DateObj (CalDate 2047 5 15)"]
  show ?thesis
    by (auto simp: cal_simps Let_def p)
qed

text \<open>
  Claim C5 as stated fails: with the active date 15 June 2024 and the maximum 1 September
  2024, the right arrow moves to 15 June 2025, which is clamped to 1 September 2024. The
  year is still 2024, and \<open>activeDateChange\<close> is emitted.
\<close>

theorem C5_counterexample:
  "emissions (result_state (u_handleCalendarBodyKeydown cal view_capped (key RIGHT_ARROW))) =
     Some [ActiveDateChange (CalDate 2024 8 1)] \<and>
   getYear cal (u_activeDate view_capped) = 2024 \<and>
   active_year cal (result_state (u_handleCalendarBodyKeydown cal view_capped (key RIGHT_ARROW))) =
     Some 2024"
  unfolding view_capped_right
  by (simp add: emissions_def result_state_def active_year_def cal_simps)

text \<open>
  Claim C5, as the code has it. For each of the eight key codes that move the active date,
  the handler returns and emits \<open>activeDateChange\<close> with the new active date if and only
  if the adapter's \<open>compareDate\<close> of the old and the new active date is not zero, that is,
  if the date changed; nothing else is emitted. With a comparison that tells years apart, a
  changed year therefore always emits; a date that changed within its year emits as well.
\<close>

theorem C5_activeDateChange_iff_date_differs:
  assumes "scans_end ad s"
    and "keyCode event \<in>
           {LEFT_ARROW, RIGHT_ARROW, UP_ARROW, DOWN_ARROW, HOME, END, PAGE_UP, PAGE_DOWN}"
  shows "\<exists>s' event'. u_handleCalendarBodyKeydown ad s event = Some (s', event') \<and>
     emitted s' =
       emitted s @
         (if compareDate ad (u_activeDate s) (u_activeDate s') \<noteq> 0
          then [ActiveDateChange (u_activeDate s')] else []) \<and>
     (compare_respects_year ad \<and> getYear ad (u_activeDate s) \<noteq> getYear ad (u_activeDate s') \<longrightarrow>
        emitted s' = emitted s @ [ActiveDateChange (u_activeDate s')])"
proof -
  from handler_moves[OF assms(2)] obtain n where
    n: "u_handleCalendarBodyKeydown ad s event =
           after_switch ad (u_activeDate s) event
             (set_activeDate ad s (DateObj (addCalendarYears ad (u_activeDate s) n)))"
    by blast
  from after_switch_set_activeDate[OF assms(1), of event
      "DateObj (addCalendarYears ad (u_activeDate s) n)"]
  show ?thesis unfolding n compare_respects_year_def by auto
qed

theorem C5_activeDateChange_iff_date_differs_witness:
  "scans_end cal view_capped \<and>
   keyCode (key RIGHT_ARROW) \<in>
     {LEFT_ARROW, RIGHT_ARROW, UP_ARROW, DOWN_ARROW, HOME, END, PAGE_UP, PAGE_DOWN} \<and>
   compareDate cal (u_activeDate view_capped) (CalDate 2024 8 1) = - 3 \<and>
   (\<exists>s' event'. u_handleCalendarBodyKeydown cal view_capped (key RIGHT_ARROW) = Some (s', event') \<and>
      u_activeDate s' = CalDate 2024 8 1 \<and>
      emitted s' = [ActiveDateChange (CalDate 2024 8 1)]) \<and>
   scans_end cal view_2023 \<and> compare_respects_year cal \<and>
   (\<exists>s' event'. u_handleCalendarBodyKeydown cal view_2023 (key RIGHT_ARROW) = Some (s', event') \<and>
      getYear cal (u_activeDate view_2023) = 2023 \<and> getYear cal (u_activeDate s') = 2024 \<and>
      emitted s' = [ActiveDateChange (CalDate 2024 5 15)])"
proof -
  have h: "scans_end cal view_capped" "scans_end cal view_2023"
    unfolding cal_def by (rule calendar_scans_end)+
  have k: "keyCode (key RIGHT_ARROW) \<in>
     {LEFT_ARROW, RIGHT_ARROW, UP_ARROW, DOWN_ARROW, HOME, END, PAGE_UP, PAGE_DOWN}"
    by (simp add: key_def)
  have c: "compareDate cal (u_activeDate view_capped) (CalDate 2024 8 1) = - 3"
    by (simp add: cal_simps)
  have r: "compare_respects_year cal"
    unfolding cal_def by (rule calendar_compare_respects_year)
  have y: "getYear cal (u_activeDate view_2023) = 2023" "getYear cal (CalDate 2024 5 15) = 2024"
    by (simp_all add: cal_simps)
  from C5_activeDateChange_iff_date_differs [OF h(1) k]
    C5_activeDateChange_iff_date_differs [OF h(2) k] h k c r y
  show ?thesis
    unfolding view_capped_right view_2023_right by simp
qed

text \<open>
  Claim C6 as stated fails for a negative year: from the active year -1, whose page
  \<open>floor (-1 / 24) = -1\<close> runs from -24 to -1, HOME lands on year 0 and END on year 23.
\<close>

theorem C6_counterexample:
  "active_year cal (result_state (u_handleCalendarBodyKeydown cal view_bc (key HOME))) = Some 0 \<and>
   page_first (getYear cal (u_activeDate view_bc)) = - 24 \<and>
   active_year cal (result_state (u_handleCalendarBodyKeydown cal view_bc (key END))) = Some 23 \<and>
   page_last (getYear cal (u_activeDate view_bc)) = - 1"
proof -
  have k: "keyCode (key HOME) = HOME" "keyCode (key END) = END" by (simp_all add: key_def)
  have j: "js_rem 1 24 = 1" "js_rem (- 1) 24 = - 1" by (simp_all add: js_rem_def)
  show ?thesis
    unfolding handler_HOME[OF k(1)] handler_END[OF k(2)]
      active_year_after_switch[OF view_bc_facts(1)] moves_by_stored[OF view_bc_facts(3)]
      view_bc_facts(2)
    by (simp add: yearsPerPage_def j page_first_def page_last_def page_of_def)
qed

text \<open>
  Claim C6, as the code has it. When the HOME move is unhindered (for the one delta HOME
  computes, the adapter adds it to the year and the moved date is valid and not clamped;
  bounds may be set and may clamp other moves), HOME lands on year \<open>y - (y mod 24)\<close>;
  likewise END, for its delta, lands on \<open>y - (y mod 24) + 23\<close>. Here \<open>y\<close> is the active
  year and \<open>mod\<close> is the truncating \<^verbatim>\<open>%\<close>: these are the first and the last year of
  the grid \<open>u_init\<close> generates for \<open>y\<close>. For \<open>y \<ge> 0\<close>, and for a negative multiple
  of 24, they are the first and the last year of the page \<open>floor (y / 24)\<close> of the active
  date; for any other negative year they are the first and the last year of the following
  page.
\<close>

theorem C6_home_end_land_on_generated_page:
  assumes "scans_end ad s"
  shows "(let y = getYear ad (u_activeDate s)
          in (keyCode event = HOME \<and> moves_by ad s (js_rem (- y) yearsPerPage) \<longrightarrow>
                (\<exists>s' event'. u_handleCalendarBodyKeydown ad s event = Some (s', event') \<and>
                   getYear ad (u_activeDate s') = y - js_rem y yearsPerPage \<and>
                   getYear ad (u_activeDate s') =
                     (if 0 \<le> y \<or> js_rem y yearsPerPage = 0 then page_first y
                      else page_first y + yearsPerPage))) \<and>
             (keyCode event = END \<and>
              moves_by ad s (yearsPerPage - js_rem y yearsPerPage - 1) \<longrightarrow>
                (\<exists>s' event'. u_handleCalendarBodyKeydown ad s event = Some (s', event') \<and>
                   getYear ad (u_activeDate s') = y - js_rem y yearsPerPage + yearsPerPage - 1 \<and>
                   getYear ad (u_activeDate s') =
                     (if 0 \<le> y \<or> js_rem y yearsPerPage = 0 then page_last y
                      else page_last y + yearsPerPage))))"
proof -
  let ?y = "getYear ad (u_activeDate s)"
  have home: "\<exists>s' event'. u_handleCalendarBodyKeydown ad s event = Some (s', event') \<and>
      getYear ad (u_activeDate s') = ?y - js_rem ?y yearsPerPage"
    if "keyCode event = HOME" and m: "moves_by ad s (js_rem (- ?y) yearsPerPage)"
  proof -
    let ?d = "addCalendarYears ad (u_activeDate s) (js_rem (- ?y) yearsPerPage)"
    from after_switch_set_activeDate[OF assms, of event "DateObj ?d"] obtain s' where
      r: "after_switch ad (u_activeDate s) event (set_activeDate ad s (DateObj ?d)) =
            Some (s', event\<lparr>defaultPrevented := True\<rparr>)"
      and a: "u_activeDate s' = stored_date ad s (DateObj ?d)"
      by blast
    have "getYear ad (u_activeDate s') = ?y + js_rem (- ?y) yearsPerPage"
      unfolding a moves_by_stored(1)[OF m] by (rule moves_by_stored(2)[OF m])
    then have "getYear ad (u_activeDate s') = ?y - js_rem ?y yearsPerPage"
      by (simp add: js_rem_minus)
    with r show ?thesis
      unfolding handler_HOME[OF that(1)] by blast
  qed
  have "end": "\<exists>s' event'. u_handleCalendarBodyKeydown ad s event = Some (s', event') \<and>
      getYear ad (u_activeDate s') = ?y - js_rem ?y yearsPerPage + yearsPerPage - 1"
    if "keyCode event = END" and m: "moves_by ad s (yearsPerPage - js_rem ?y yearsPerPage - 1)"
  proof -
    let ?d = "addCalendarYears ad (u_activeDate s) (yearsPerPage - js_rem ?y yearsPerPage - 1)"
    from after_switch_set_activeDate[OF assms, of event "DateObj ?d"] obtain s' where
      r: "after_switch ad (u_activeDate s) event (set_activeDate ad s (DateObj ?d)) =
            Some (s', event\<lparr>defaultPrevented := True\<rparr>)"
      and a: "u_activeDate s' = stored_date ad s (DateObj ?d)"
      by blast
    have "getYear ad (u_activeDate s') = ?y + (yearsPerPage - js_rem ?y yearsPerPage - 1)"
      unfolding a moves_by_stored(1)[OF m] by (rule moves_by_stored(2)[OF m])
    then have "getYear ad (u_activeDate s') = ?y - js_rem ?y yearsPerPage + yearsPerPage - 1"
      by simp
    with r show ?thesis
      unfolding handler_END[OF that(1)] by blast
  qed
  have l: "?y - js_rem ?y yearsPerPage + yearsPerPage - 1 =
     (if 0 \<le> ?y \<or> js_rem ?y yearsPerPage = 0 then page_last ?y else page_last ?y + yearsPerPage)"
    using js_rem_page_first[of ?y] by (simp add: page_last_def)
  from home "end" show ?thesis
    unfolding Let_def l[symmetric] js_rem_page_first[symmetric] by simp
qed

theorem C6_home_end_land_on_generated_page_witness:
  "scans_end cal view_wide \<and>
   u_minDate view_wide = Some (CalDate 2000 0 1) \<and> u_maxDate view_wide = Some (CalDate 2050 11 31) \<and>
   moves_by cal view_wide (js_rem (- 2023) yearsPerPage) \<and>
   moves_by cal view_wide (yearsPerPage - js_rem 2023 yearsPerPage - 1) \<and>
   \<not> moves_by cal view_wide 100 \<and>
   (\<exists>s' event'. u_handleCalendarBodyKeydown cal view_wide (key HOME) = Some (s', event') \<and>
      getYear cal (u_activeDate s') = 2016 \<and> page_first 2023 = 2016) \<and>
   (\<exists>s' event'. u_handleCalendarBodyKeydown cal view_wide (key END) = Some (s', event') \<and>
      getYear cal (u_activeDate s') = 2039 \<and> page_last 2023 = 2039) \<and>
   scans_end cal view_bc \<and> moves_by cal view_bc (js_rem (- (- 1)) yearsPerPage) \<and>
   (\<exists>s' event'. u_handleCalendarBodyKeydown cal view_bc (key HOME) = Some (s', event') \<and>
      getYear cal (u_activeDate s') = 0 \<and> page_first (- 1) + yearsPerPage = 0)"
proof -
  note w = view_wide_facts
  have k: "keyCode (key HOME) = HOME" "keyCode (key END) = END" "HOME \<noteq> END"
    by (simp_all add: key_def keycode_defs)
  have j: "js_rem 2023 24 = 7" "js_rem (- 2023) 24 = - 7" "js_rem (- 1) 24 = - 1" "js_rem 1 24 = 1"
    by (simp_all add: js_rem_def)
  have p: "page_first 2023 = 2016" "page_last 2023 = 2039" "page_first (- 1) = - 24"
    by (simp_all add: page_first_def page_last_def page_of_def yearsPerPage_def)
  from C6_home_end_land_on_generated_page [OF w(1), of "key HOME"]
    C6_home_end_land_on_generated_page [OF w(1), of "key END"]
    C6_home_end_land_on_generated_page [OF view_bc_facts(1), of "key HOME"]
    w view_bc_facts(1) view_bc_facts(3)[of 1]
  show ?thesis
    unfolding Let_def w(2) view_bc_facts(2) k j p yearsPerPage_def by (simp add: j)
qed




text \<open>
  Claim C8. For a key code that is none of the recognised ones, the handler returns the
  component and the event as they were: no field changes, nothing is emitted, no focus is
  requested and \<open>defaultPrevented\<close> is not set. (The source's \<^verbatim>\<open>switch\<close> has ten key
  codes: eight that move the active date, and ENTER and SPACE that commit.)
\<close>

theorem C8_unrecognized_key_is_ignored:
  assumes "keyCode event \<notin>
             {LEFT_ARROW, RIGHT_ARROW, UP_ARROW, DOWN_ARROW, HOME, END, PAGE_UP, PAGE_DOWN,
              ENTER, SPACE}"
  shows "u_handleCalendarBodyKeydown ad s event = Some (s, event)"
  using assms by (simp add: u_handleCalendarBodyKeydown_def)

theorem C8_unrecognized_key_is_ignored_witness:
  "keyCode (key 65) \<notin>
     {LEFT_ARROW, RIGHT_ARROW, UP_ARROW, DOWN_ARROW, HOME, END, PAGE_UP, PAGE_DOWN, ENTER, SPACE} \<and>
   u_handleCalendarBodyKeydown cal view_2023 (key 65) = Some (view_2023, key 65)"
proof -
  have h: "keyCode (key 65) \<notin>
     {LEFT_ARROW, RIGHT_ARROW, UP_ARROW, DOWN_ARROW, HOME, END, PAGE_UP, PAGE_DOWN, ENTER, SPACE}"
    by (simp add: key_def keycode_defs)
  from h C8_unrecognized_key_is_ignored [OF h, of cal view_2023] show ?thesis by simp
qed

text \<open>
  Claim C9. Committing a year changes nothing but the log of emissions: the active date and
  every other field stay as they were, and exactly a \<open>yearSelected\<close> and a
  \<open>selectedChange\<close> emission are added.
\<close>

theorem C9_yearSelected_keeps_activeDate:
  "u_yearSelected ad s year = s\<lparr>emitted := emitted (u_yearSelected ad s year)\<rparr> \<and>
   u_activeDate (u_yearSelected ad s year) = u_activeDate s \<and>
   (\<exists>a b. emitted (u_yearSelected ad s year) = emitted s @ [YearSelected a, SelectedChange b])"
  by (simp add: u_yearSelected_def Let_def)

theorem C9_yearSelected_keeps_activeDate_witness:
  "u_yearSelected cal view_leap 2023 =
     view_leap\<lparr>emitted := [YearSelected (CalDate 2023 0 1), SelectedChange (CalDate 2023 1 28)]\<rparr> \<and>
   u_activeDate (u_yearSelected cal view_leap 2023) = CalDate 2024 1 29"
  using C9_yearSelected_keeps_activeDate [of cal view_leap 2023]
  by (simp add: cal_simps u_yearSelected_def)

text \<open>
  Claim C10. Assigning \<open>minDate\<close> or \<open>maxDate\<close> changes only the stored bound: the
  deserialized value when the adapter says it is a valid date instance, null otherwise. The
  active date, the grid of cells and the count of page generations stay as they were.
\<close>

theorem C10_bound_setters_only_store:
  "set_minDate ad s v = s\<lparr>u_minDate := u_minDate (set_minDate ad s v)\<rparr> \<and>
   set_maxDate ad s v = s\<lparr>u_maxDate := u_maxDate (set_maxDate ad s v)\<rparr> \<and>
   u_activeDate (set_minDate ad s v) = u_activeDate s \<and>
   u_activeDate (set_maxDate ad s v) = u_activeDate s \<and>
   u_years (set_minDate ad s v) = u_years s \<and>
   u_years (set_maxDate ad s v) = u_years s \<and>
   markForCheckCalls (set_minDate ad s v) = markForCheckCalls s \<and>
   markForCheckCalls (set_maxDate ad s v) = markForCheckCalls s \<and>
   (isDateInstance ad (deserialize ad v) \<and> isValid ad (deserialize ad v) \<longrightarrow>
      u_minDate (set_minDate ad s v) = deserialize ad v \<and>
      u_maxDate (set_maxDate ad s v) = deserialize ad v) \<and>
   (\<not> (isDateInstance ad (deserialize ad v) \<and> isValid ad (deserialize ad v)) \<longrightarrow>
      u_minDate (set_minDate ad s v) = None \<and> u_maxDate (set_maxDate ad s v) = None)"
  by (simp add: set_minDate_def set_maxDate_def u_getValidDateOrNull_def)

theorem C10_bound_setters_only_store_witness:
  "set_minDate cal view_2023 (DateObj (CalDate 2030 0 1)) =
     view_2023\<lparr>u_minDate := Some (CalDate 2030 0 1)\<rparr> \<and>
   u_activeDate (set_minDate cal view_2023 (DateObj (CalDate 2030 0 1))) = CalDate 2023 5 15 \<and>
   \<not> (isDateInstance cal (deserialize cal (Other ''soon'')) \<and>
       isValid cal (deserialize cal (Other ''soon''))) \<and>
   u_maxDate (set_maxDate cal view_bounded (Other ''soon'')) = None \<and>
   u_activeDate (set_maxDate cal view_bounded (Other ''soon'')) = CalDate 2023 5 15"
  using C10_bound_setters_only_store [of cal view_2023 "DateObj (CalDate 2030 0 1)"]
    C10_bound_setters_only_store [of cal view_bounded "Other ''soon''"]
  by (simp add: cal_simps)

end
